theory Spec2Isabelle
  imports Main "HOL-Library.Multiset"
begin

section \<open>massif-combine: the data model\<close>

text \<open>
  The embedding follows \<^verbatim>\<open>src/massif-combine.cpp\<close>. A \<^verbatim>\<open>std::string\<close> is a
  \<^typ>\<open>string\<close> (a list of bytes), a \<^verbatim>\<open>StringList\<close> a list of strings. The
  snapshots of a \<^verbatim>\<open>MassifFile\<close> are held through \<^verbatim>\<open>shared_ptr\<close>, but a pending
  snapshot is dropped by the parser in the very statement that follows its
  \<^verbatim>\<open>push_back\<close>, so no snapshot is ever reachable through two pointers when it
  is written to, and the model keeps snapshots by value.
\<close>

record Snapshot =
  time :: int
  contents :: "string list"

record MassifFile =
  headers :: "string list"
  snapshots :: "Snapshot list"

text \<open>The enumeration \<^verbatim>\<open>LastLine\<close> local to \<^verbatim>\<open>appendFile\<close>.\<close>

datatype LastLine = HEADER | SNAPSHOT_MARK | SNAPSHOT_NAME | SNAPSHOT_CONTENT | NONE

text \<open>
  The only exception the core can raise is the \<^verbatim>\<open>std::out_of_range\<close> of
  \<^verbatim>\<open>std::stoi\<close>. Nothing catches it, so it ends the program.
\<close>

datatype exn = out_of_range

text \<open>A file system maps a path to the bytes of the file, when it can be opened.\<close>

type_synonym filesystem = "string \<rightharpoonup> string"

section \<open>Strings, regular expressions, numbers\<close>

definition INT_MAX :: int where
  "INT_MAX = 2147483647"

definition newline :: char where
  "newline = CHR 0x0A"

definition snapshot_mark :: string where
  "snapshot_mark = ''#-----------''"

text \<open>The class \<^verbatim>\<open>\d\<close>: the bytes from \<^verbatim>\<open>'0'\<close> (48) to \<^verbatim>\<open>'9'\<close> (57).\<close>

definition is_digit :: "char \<Rightarrow> bool" where
  "is_digit c = (48 \<le> (of_char c :: nat) \<and> (of_char c :: nat) \<le> 57)"

definition starts_with :: "string \<Rightarrow> string \<Rightarrow> bool" where
  "starts_with p s = (take (length p) s = p)"

text \<open>
  \<^verbatim>\<open>std::regex_search\<close> with a pattern of the shape \<^verbatim>\<open>label(\d+)\<close>: the leftmost
  position where the label is followed by a digit matches, and the greedy
  \<^verbatim>\<open>\d+\<close> captures the whole run of digits there.
\<close>

fun search_digits :: "string \<Rightarrow> string \<Rightarrow> string option" where
  "search_digits lbl [] = None"
| "search_digits lbl (c # cs) =
     (let ds = takeWhile is_digit (drop (length lbl) (c # cs))
      in if starts_with lbl (c # cs) \<and> ds \<noteq> [] then Some ds
         else search_digits lbl cs)"

text \<open>\<^verbatim>\<open>keyword_regex = "^(desc|cmd|time_unit):"\<close>, anchored at the start of the line.\<close>

definition keyword_regex :: "string \<Rightarrow> bool" where
  "keyword_regex str =
     (starts_with ''desc:'' str \<or> starts_with ''cmd:'' str \<or> starts_with ''time_unit:'' str)"

text \<open>\<^verbatim>\<open>snapshot_regex = "snapshot=\\d+"\<close>, searched anywhere in the line.\<close>

definition snapshot_regex :: "string \<Rightarrow> bool" where
  "snapshot_regex str = (search_digits ''snapshot='' str \<noteq> None)"

text \<open>\<^verbatim>\<open>snapshot_time_regex = "time=(\\d+)"\<close>; the result is \<^verbatim>\<open>match[1]\<close>.\<close>

definition snapshot_time_regex :: "string \<Rightarrow> string option" where
  "snapshot_time_regex str = search_digits ''time='' str"

definition digit_val :: "char \<Rightarrow> int" where
  "digit_val c = of_char c - 48"

definition decimal_value :: "string \<Rightarrow> int" where
  "decimal_value ds = foldl (\<lambda>a c. 10 * a + digit_val c) 0 ds"

text \<open>
  \<^verbatim>\<open>std::stoi\<close> on a string of digits: the value, or \<^verbatim>\<open>std::out_of_range\<close> when
  it does not fit an \<^verbatim>\<open>int\<close>.
\<close>

definition stoi :: "string \<Rightarrow> exn + int" where
  "stoi ds = (if decimal_value ds > INT_MAX then Inl out_of_range else Inr (decimal_value ds))"

text \<open>\<^verbatim>\<open>std::to_string(int)\<close>.\<close>

definition digit_char :: "nat \<Rightarrow> char" where
  "digit_char d = char_of (48 + d)"

fun decimal :: "nat \<Rightarrow> string" where
  "decimal n = (if n < 10 then [digit_char n] else decimal (n div 10) @ [digit_char (n mod 10)])"

declare decimal.simps [simp del]

definition to_string :: "int \<Rightarrow> string" where
  "to_string i = (if i < 0 then CHR ''-'' # decimal (nat (- i)) else decimal (nat i))"

text \<open>
  The lines \<^verbatim>\<open>while (std::getline(file, str))\<close> reads from a stream holding the
  given bytes: each line ends at a newline, which is dropped; bytes after the
  last newline are a line of their own when there are any.
\<close>

fun getline :: "string \<Rightarrow> string \<Rightarrow> string list" where
  "getline str [] = (if str = [] then [] else [str])"
| "getline str (c # cs) =
     (if c = newline then str # getline [] cs else getline (str @ [c]) cs)"

definition getlines :: "string \<Rightarrow> string list" where
  "getlines bytes = getline [] bytes"

section \<open>The parser: \<^verbatim>\<open>MassifFile::appendFile\<close>\<close>

text \<open>
  The variables of the loop: \<^verbatim>\<open>status\<close>, the pending \<^verbatim>\<open>snapshot\<close> (\<^verbatim>\<open>nullptr\<close> is
  \<^term>\<open>None\<close>) and the object's own fields.
\<close>

record parser =
  status :: LastLine
  snapshot :: "Snapshot option"
  this :: MassifFile

text \<open>What one pass through the loop body leads to.\<close>

datatype flow = Continue parser | Return int MassifFile | Throw exn

text \<open>
  \<^verbatim>\<open>if (snapshot != nullptr && snapshot->contents.size() > 0)
     this->snapshots.push_back(snapshot);\<close>
\<close>

definition push_pending :: "Snapshot option \<Rightarrow> MassifFile \<Rightarrow> MassifFile" where
  "push_pending sn m =
     (case sn of
        None \<Rightarrow> m
      | Some s \<Rightarrow> if length (contents s) > 0 then m\<lparr>snapshots := snapshots m @ [s]\<rparr> else m)"

text \<open>\<^verbatim>\<open>std::make_shared<Snapshot>()\<close> value-initialises: \<^verbatim>\<open>time\<close> is 0.\<close>

definition make_Snapshot :: Snapshot where
  "make_Snapshot = \<lparr>time = 0, contents = []\<rparr>"

definition loop_body :: "bool \<Rightarrow> parser \<Rightarrow> string \<Rightarrow> flow" where
  "loop_body ignore_header p str =
     (if keyword_regex str then
        Continue (p\<lparr>status := HEADER,
                    this := (if \<not> ignore_header
                             then (this p)\<lparr>headers := headers (this p) @ [str]\<rparr>
                             else this p)\<rparr>)
      else if (status p = HEADER \<or> status p = SNAPSHOT_CONTENT) \<and> str = snapshot_mark then
        Continue (p\<lparr>status := SNAPSHOT_MARK,
                    this := push_pending (snapshot p) (this p),
                    snapshot := None\<rparr>)
      else if status p = SNAPSHOT_MARK \<and> snapshot_regex str then
        Continue (p\<lparr>status := SNAPSHOT_NAME\<rparr>)
      else if status p = SNAPSHOT_NAME \<and> str = snapshot_mark then
        (case snapshot p of
           None \<Rightarrow> Continue (p\<lparr>status := SNAPSHOT_CONTENT, snapshot := Some make_Snapshot\<rparr>)
         | Some s \<Rightarrow> Return 2 (this p))
      else if status p = SNAPSHOT_CONTENT then
        (case snapshot p of
           None \<Rightarrow> Return 2 (this p)
         | Some s \<Rightarrow>
             (let s' = s\<lparr>contents := contents s @ [str]\<rparr>
              in case snapshot_time_regex str of
                   None \<Rightarrow> Continue (p\<lparr>snapshot := Some s'\<rparr>)
                 | Some m \<Rightarrow>
                     (case stoi m of
                        Inl e \<Rightarrow> Throw e
                      | Inr t \<Rightarrow> Continue (p\<lparr>snapshot := Some (s'\<lparr>time := t\<rparr>)\<rparr>))))
      else Continue p)"

fun while_getline :: "bool \<Rightarrow> parser \<Rightarrow> string list \<Rightarrow> flow" where
  "while_getline ignore_header p [] = Continue p"
| "while_getline ignore_header p (str # rest) =
     (case loop_body ignore_header p str of
        Continue p' \<Rightarrow> while_getline ignore_header p' rest
      | Return r m \<Rightarrow> Return r m
      | Throw e \<Rightarrow> Throw e)"

text \<open>The body of \<^verbatim>\<open>appendFile\<close> once the file is open, on the lines of the file.\<close>

definition parse_lines :: "bool \<Rightarrow> string list \<Rightarrow> MassifFile \<Rightarrow> exn + int \<times> MassifFile" where
  "parse_lines ignore_header lines m =
     (case while_getline ignore_header \<lparr>status = NONE, snapshot = None, this = m\<rparr> lines of
        Continue p \<Rightarrow> Inr (0, push_pending (snapshot p) (this p))
      | Return r m' \<Rightarrow> Inr (r, m')
      | Throw e \<Rightarrow> Inl e)"

definition appendFile ::
  "filesystem \<Rightarrow> string \<Rightarrow> bool \<Rightarrow> MassifFile \<Rightarrow> exn + int \<times> MassifFile" where
  "appendFile fs path ignore_header m =
     (case fs path of
        None \<Rightarrow> Inr (1, m)
      | Some bytes \<Rightarrow> parse_lines ignore_header (getlines bytes) m)"

section \<open>The combiner: \<^verbatim>\<open>MassifFile::add\<close>\<close>

definition MassifFile_empty :: MassifFile where
  "MassifFile_empty = \<lparr>headers = [], snapshots = []\<rparr>"

text \<open>\<^verbatim>\<open>int add(const std::string path)\<close>\<close>

definition add :: "filesystem \<Rightarrow> string \<Rightarrow> MassifFile \<Rightarrow> exn + int \<times> MassifFile" where
  "add fs path m = appendFile fs path (length (headers m) > 0) m"

text \<open>
  \<^verbatim>\<open>template <class It> int add(It first, It last)\<close>: the loop, with its
  variable \<^verbatim>\<open>ret\<close>.
\<close>

fun add_loop :: "filesystem \<Rightarrow> int \<Rightarrow> string list \<Rightarrow> MassifFile \<Rightarrow> exn + int \<times> MassifFile" where
  "add_loop fs ret [] m = Inr (ret, m)"
| "add_loop fs ret (path # rest) m =
     (case add fs path m of
        Inl e \<Rightarrow> Inl e
      | Inr (r, m') \<Rightarrow> add_loop fs (if r \<noteq> 0 then r else ret) rest m')"

definition add_range :: "filesystem \<Rightarrow> string list \<Rightarrow> MassifFile \<Rightarrow> exn + int \<times> MassifFile" where
  "add_range fs paths m = add_loop fs 0 paths m"

section \<open>The serializer: \<^verbatim>\<open>MassifFile::write\<close>\<close>

text \<open>
  What the environment lets an output stream do: whether the destination can
  be opened, how many lines it takes before a write fails, and whether closing
  succeeds.
\<close>

record sink =
  can_open :: bool
  capacity :: nat
  can_close :: bool

text \<open>
  A \<^verbatim>\<open>std::ofstream\<close>: \<^verbatim>\<open>!file\<close> is \<^term>\<open>\<not> good file\<close>; a stream that has failed
  ignores later writes.
\<close>

record ofstream =
  good :: bool
  written :: string
  room :: nat

text \<open>One assignment through the \<^verbatim>\<open>ostream_iterator\<close>: the string, then \<^verbatim>\<open>"\n"\<close>.\<close>

definition put_line :: "ofstream \<Rightarrow> string \<Rightarrow> ofstream" where
  "put_line file str =
     (if good file \<and> room file > 0
      then file\<lparr>written := written file @ str @ [newline], room := room file - 1\<rparr>
      else file\<lparr>good := False\<rparr>)"

definition writeList :: "ofstream \<Rightarrow> string list \<Rightarrow> ofstream" where
  "writeList stream list = foldl put_line stream list"

definition writeSnapshot :: "ofstream \<Rightarrow> int \<Rightarrow> Snapshot \<Rightarrow> ofstream" where
  "writeSnapshot stream index sn =
     (let titles = [snapshot_mark, ''snapshot='' @ to_string index, snapshot_mark]
      in writeList (writeList stream titles) (contents sn))"

text \<open>
  \<^verbatim>\<open>std::sort\<close> with the comparator \<^verbatim>\<open>a->time < b->time\<close>. The standard promises
  a permutation in which no element is followed by one the comparator puts
  before it, and leaves the order of equal elements open; the model is
  insertion sort, and no theorem below depends on the order it gives equal
  keys.
\<close>

fun sort_insert :: "('a \<Rightarrow> 'a \<Rightarrow> bool) \<Rightarrow> 'a \<Rightarrow> 'a list \<Rightarrow> 'a list" where
  "sort_insert cmp x [] = [x]"
| "sort_insert cmp x (y # ys) =
     (if cmp y x then y # sort_insert cmp x ys else x # y # ys)"

fun std_sort :: "('a \<Rightarrow> 'a \<Rightarrow> bool) \<Rightarrow> 'a list \<Rightarrow> 'a list" where
  "std_sort cmp [] = []"
| "std_sort cmp (x # xs) = sort_insert cmp x (std_sort cmp xs)"

definition by_time :: "Snapshot \<Rightarrow> Snapshot \<Rightarrow> bool" where
  "by_time a b = (time a < time b)"

text \<open>
  The loop \<^verbatim>\<open>for (int i = 0; i < snapshots.size(); i++)\<close>. The counter is an
  \<^verbatim>\<open>int\<close> compared with a \<^verbatim>\<open>size_t\<close>; incrementing it at \<^verbatim>\<open>INT_MAX\<close> is undefined
  behaviour, which the model keeps apart as \<^term>\<open>Overflow\<close>.
\<close>

datatype loop_exit = Done ofstream | Fail ofstream | Overflow

function write_loop :: "ofstream \<Rightarrow> int \<Rightarrow> Snapshot list \<Rightarrow> loop_exit" where
  "write_loop file i snaps =
     (if 0 \<le> i \<and> i < int (length snaps) then
        (let file' = writeSnapshot file i (snaps ! nat i)
         in if \<not> good file' then Fail file'
            else if i = INT_MAX then Overflow
            else write_loop file' (i + 1) snaps)
      else Done file)"
  by pat_completeness auto
termination
  by (relation "measure (\<lambda>(file, i, snaps). length snaps - nat i)") auto

declare write_loop.simps [simp del]

text \<open>
  \<^verbatim>\<open>int write(const std::string path)\<close>, named \<open>write_file\<close> here because
  \<^verbatim>\<open>write\<close> is a command of Isabelle. It returns its code, the object (whose
  snapshots it sorts in place, before the stream is opened) and the file
  system; \<^term>\<open>None\<close> stands for the undefined behaviour above. Opening the
  stream truncates the destination, so from then on the file holds what has
  been written.
\<close>

definition write_file ::
  "sink \<Rightarrow> filesystem \<Rightarrow> string \<Rightarrow> MassifFile \<Rightarrow> (int \<times> MassifFile \<times> filesystem) option" where
  "write_file dev fs path m =
     (if length (headers m) \<le> 0 \<and> length (snapshots m) \<le> 0 then Some (- 1, m, fs)
      else
        (let m' = m\<lparr>snapshots := std_sort by_time (snapshots m)\<rparr>
         in if \<not> can_open dev then Some (1, m', fs)
            else
              (let file = writeList \<lparr>good = True, written = [], room = capacity dev\<rparr> (headers m')
               in if \<not> good file then Some (2, m', fs(path \<mapsto> written file))
                  else
                    (case write_loop file 0 (snapshots m') of
                       Fail file' \<Rightarrow> Some (2, m', fs(path \<mapsto> written file'))
                     | Overflow \<Rightarrow> None
                     | Done file' \<Rightarrow>
                         if \<not> can_close dev then Some (3, m', fs(path \<mapsto> written file'))
                         else Some (0, m', fs(path \<mapsto> written file'))))))"

section \<open>Notions used to state the properties\<close>

subsection \<open>The parser's state\<close>

text \<open>The state \<^verbatim>\<open>appendFile\<close> enters its loop with.\<close>

definition parser_init :: "MassifFile \<Rightarrow> parser" where
  "parser_init m = \<lparr>status = NONE, snapshot = None, this = m\<rparr>"

text \<open>A line that can reach the last branch of the loop body in the state \<^term>\<open>SNAPSHOT_CONTENT\<close>.\<close>

definition body_line :: "string \<Rightarrow> bool" where
  "body_line l = (\<not> keyword_regex l \<and> l \<noteq> snapshot_mark)"

text \<open>The effect of the \<^verbatim>\<open>time=\<close> test on a pending snapshot; \<^term>\<open>None\<close> when \<^verbatim>\<open>stoi\<close> throws.\<close>

definition time_update :: "string \<Rightarrow> Snapshot \<Rightarrow> Snapshot option" where
  "time_update l s =
     (case snapshot_time_regex l of
        None \<Rightarrow> Some s
      | Some ds \<Rightarrow> (case stoi ds of Inl e \<Rightarrow> None | Inr t \<Rightarrow> Some (s\<lparr>time := t\<rparr>)))"

text \<open>
  How \<^verbatim>\<open>status\<close> and the pending snapshot go together: a snapshot is pending
  throughout \<^term>\<open>SNAPSHOT_CONTENT\<close>, and none is outside \<^term>\<open>SNAPSHOT_CONTENT\<close> and
  \<^term>\<open>HEADER\<close>.
\<close>

definition shape_ok :: "parser \<Rightarrow> bool" where
  "shape_ok p =
     ((status p = SNAPSHOT_CONTENT \<longrightarrow> snapshot p \<noteq> None) \<and>
      (status p \<noteq> SNAPSHOT_CONTENT \<and> status p \<noteq> HEADER \<longrightarrow> snapshot p = None))"


text \<open>
  The value \<^verbatim>\<open>time\<close> ends with when the lines of a body are appended one after
  the other to a snapshot whose \<^verbatim>\<open>time\<close> is \<open>t\<close>; \<^term>\<open>None\<close> when \<^verbatim>\<open>stoi\<close> throws
  on the way.
\<close>

fun scan_time :: "int \<Rightarrow> string list \<Rightarrow> int option" where
  "scan_time t [] = Some t"
| "scan_time t (l # ls) =
     (case snapshot_time_regex l of
        None \<Rightarrow> scan_time t ls
      | Some ds \<Rightarrow> (case stoi ds of Inl e \<Rightarrow> None | Inr t' \<Rightarrow> scan_time t' ls))"

text \<open>The pending snapshot and the snapshots added so far, relative to the object at entry.\<close>

definition grown :: "MassifFile \<Rightarrow> parser \<Rightarrow> bool" where
  "grown m0 p =
     ((\<exists>new. snapshots (this p) = snapshots m0 @ new \<and>
             (\<forall>s \<in> set new. contents s \<noteq> [] \<and> scan_time 0 (contents s) = Some (time s))) \<and>
      (\<forall>s. snapshot p = Some s \<longrightarrow> scan_time 0 (contents s) = Some (time s)))"

subsection \<open>The chronological key, in the words of the specification\<close>

text \<open>The integers captured from the lines of a body that match \<^verbatim>\<open>time=(\d+)\<close>, in order.\<close>

definition matching_keys :: "string list \<Rightarrow> int list" where
  "matching_keys body =
     List.map_filter (\<lambda>l. map_option decimal_value (snapshot_time_regex l)) body"

definition first_match_key :: "string list \<Rightarrow> int" where
  "first_match_key body = (case matching_keys body of [] \<Rightarrow> 0 | k # ks \<Rightarrow> k)"

definition last_match_key :: "string list \<Rightarrow> int" where
  "last_match_key body = (case matching_keys body of [] \<Rightarrow> 0 | k # ks \<Rightarrow> last (k # ks))"

subsection \<open>The result of the combiner\<close>


subsection \<open>The output format\<close>

definition render :: "string list \<Rightarrow> string" where
  "render ls = concat (map (\<lambda>l. l @ [newline]) ls)"

definition block :: "int \<Rightarrow> Snapshot \<Rightarrow> string list" where
  "block i sn = [snapshot_mark, ''snapshot='' @ to_string i, snapshot_mark] @ contents sn"

fun blocks :: "int \<Rightarrow> Snapshot list \<Rightarrow> string list" where
  "blocks i [] = []"
| "blocks i (sn # sns) = block i sn @ blocks (i + 1) sns"

definition output_lines :: "MassifFile \<Rightarrow> string list" where
  "output_lines m = headers m @ blocks 0 (snapshots m)"

definition key_body :: "Snapshot \<Rightarrow> int \<times> string list" where
  "key_body sn = (time sn, contents sn)"

subsection \<open>What every object built by the combiner satisfies\<close>

definition line_wf :: "string \<Rightarrow> bool" where
  "line_wf l = (newline \<notin> set l)"

definition pending_wf :: "Snapshot \<Rightarrow> bool" where
  "pending_wf sn =
     ((\<forall>l \<in> set (contents sn). body_line l \<and> line_wf l) \<and>
      scan_time 0 (contents sn) = Some (time sn))"

definition snap_wf :: "Snapshot \<Rightarrow> bool" where
  "snap_wf sn = (contents sn \<noteq> [] \<and> pending_wf sn)"

definition doc_wf :: "MassifFile \<Rightarrow> bool" where
  "doc_wf m =
     ((\<forall>h \<in> set (headers m). keyword_regex h \<and> line_wf h) \<and>
      (\<forall>sn \<in> set (snapshots m). snap_wf sn) \<and>
      (snapshots m \<noteq> [] \<longrightarrow> headers m \<noteq> []))"

definition parser_wf :: "bool \<Rightarrow> parser \<Rightarrow> bool" where
  "parser_wf ig p =
     (doc_wf (this p) \<and>
      (\<forall>sn. snapshot p = Some sn \<longrightarrow> pending_wf sn) \<and>
      (ig \<longrightarrow> headers (this p) \<noteq> []) \<and>
      (status p \<noteq> NONE \<longrightarrow> headers (this p) \<noteq> []))"

text \<open>The object \<^verbatim>\<open>appendFile\<close> would leave if the input ended in this state.\<close>

definition flush :: "parser \<Rightarrow> MassifFile" where
  "flush p = push_pending (snapshot p) (this p)"

subsection \<open>Example inputs\<close>

definition source_A :: "string list" where
  "source_A = [''desc: x'', ''#-----------'', ''snapshot=0'', ''#-----------'',
               ''mem_heap_B=10'', ''time=100'']"

definition source_B :: "string list" where
  "source_B = [''#-----------'', ''snapshot=0'', ''#-----------'', ''mem_heap_B=5'', ''time=50'']"

definition source_B_with_header :: "string list" where
  "source_B_with_header = ''desc: y'' # source_B"

definition example_fs :: filesystem where
  "example_fs = [''A'' \<mapsto> render source_A, ''B'' \<mapsto> render source_B,
                 ''C'' \<mapsto> render source_B_with_header]"

definition example_dev :: sink where
  "example_dev = \<lparr>can_open = True, capacity = 64, can_close = True\<rparr>"

definition snapshot_A :: Snapshot where
  "snapshot_A = \<lparr>time = 100, contents = [''mem_heap_B=10'', ''time=100'']\<rparr>"

definition snapshot_B :: Snapshot where
  "snapshot_B = \<lparr>time = 50, contents = [''mem_heap_B=5'', ''time=50'']\<rparr>"

definition two_opens :: "string list" where
  "two_opens = [''desc: x'', ''#-----------'', ''snapshot=0'', ''#-----------'', ''mem_heap_B=1'',
                ''#-----------'', ''snapshot=1'', ''#-----------'', ''mem_heap_B=2'']"

definition two_times :: "string list" where
  "two_times = [''desc: x'', ''#-----------'', ''snapshot=0'', ''#-----------'',
                ''time=1'', ''time=2'']"






definition two_opens_result :: MassifFile where
  "two_opens_result =
     \<lparr>headers = [''desc: x''],
      snapshots = [\<lparr>time = 0, contents = [''mem_heap_B=1'']\<rparr>,
                   \<lparr>time = 0, contents = [''mem_heap_B=2'']\<rparr>]\<rparr>"

text \<open>The code of a \<^verbatim>\<open>write\<close> and the bytes it leaves at a path.\<close>

definition file_after ::
  "string \<Rightarrow> (int \<times> MassifFile \<times> filesystem) option \<Rightarrow> (int \<times> string option) option" where
  "file_after path result = map_option (\<lambda>(rc, m', fs'). (rc, fs' path)) result"

definition claimed_output :: "string list" where
  "claimed_output = [''desc: x'',
                     ''#-----------'', ''snapshot=0'', ''#-----------'', ''mem_heap_B=5'', ''time=50'',
                     ''#-----------'', ''snapshot=1'', ''#-----------'', ''mem_heap_B=10'', ''time=100'']"

definition doc_A :: MassifFile where
  "doc_A = \<lparr>headers = [''desc: x''], snapshots = [snapshot_A]\<rparr>"

definition doc_AB :: MassifFile where
  "doc_AB = \<lparr>headers = [''desc: x''], snapshots = [snapshot_A, snapshot_B]\<rparr>"

definition doc_BA :: MassifFile where
  "doc_BA = \<lparr>headers = [''desc: x''], snapshots = [snapshot_B, snapshot_A]\<rparr>"

section \<open>Properties\<close>

subsection \<open>The serializer refuses an empty object\<close>

text \<open>
  Claim C7. An object with no header and no snapshot is not written: the
  serializer returns its failure code \<open>-1\<close> from the first test of \<^verbatim>\<open>write\<close>,
  before any stream is opened, so the file system is exactly what it was: no
  file is created and an existing destination keeps its bytes.
\<close>

theorem write_empty_document:
  assumes "headers m = []" and "snapshots m = []"
  shows "write_file dev fs path m = Some (- 1, m, fs)"
  using assms by (simp add: write_file_def)

theorem write_empty_document_witness:
  "headers MassifFile_empty = [] \<and> snapshots MassifFile_empty = [] \<and>
   write_file example_dev example_fs ''A'' MassifFile_empty = Some (- 1, MassifFile_empty, example_fs)"
  using write_empty_document [of MassifFile_empty example_dev example_fs "''A''"]
  by (simp add: MassifFile_empty_def)

subsection \<open>Input without a header keyword\<close>

lemma loop_body_NONE:
  assumes "\<not> keyword_regex l" and "status p = NONE"
  shows "loop_body ig p l = Continue p"
  using assms by (simp add: loop_body_def)

lemma while_getline_NONE:
  assumes "\<forall>l \<in> set ls. \<not> keyword_regex l" and "status p = NONE"
  shows "while_getline ig p ls = Continue p"
  using assms by (induction ls) (simp_all add: loop_body_NONE)

text \<open>
  Claim C2. When no line of the input matches \<^verbatim>\<open>^(desc|cmd|time_unit):\<close>, the
  state machine never leaves \<^term>\<open>NONE\<close>: the loop ends in the state it started
  in, and the parser returns 0 with the object unchanged, no header and no
  snapshot added.
\<close>

theorem no_keyword_unchanged:
  assumes "\<forall>l \<in> set lines. \<not> keyword_regex l"
  shows "while_getline ig (parser_init m) lines = Continue (parser_init m) \<and>
         parse_lines ig lines m = Inr (0, m)"
proof -
  have "while_getline ig (parser_init m) lines = Continue (parser_init m)"
    using assms by (rule while_getline_NONE) (simp add: parser_init_def)
  then show ?thesis
    by (simp add: parse_lines_def parser_init_def push_pending_def)
qed

theorem no_keyword_unchanged_witness:
  "list_all (\<lambda>l. \<not> keyword_regex l) source_B \<and>
   while_getline False (parser_init MassifFile_empty) source_B = Continue (parser_init MassifFile_empty) \<and>
   parse_lines False source_B MassifFile_empty = Inr (0, MassifFile_empty)"
proof -
  have h: "\<forall>l \<in> set source_B. \<not> keyword_regex l"
    by (simp add: source_B_def keyword_regex_def starts_with_def)
  from no_keyword_unchanged [OF h, of False MassifFile_empty] h show ?thesis
    by (simp add: list_all_iff)
qed

subsection \<open>The last error code\<close>



subsection \<open>The parser: the shape of its states\<close>

lemma mark_not_keyword: "\<not> keyword_regex snapshot_mark"
  by (simp add: keyword_regex_def snapshot_mark_def starts_with_def)

lemma loop_body_Continue_cases [consumes 1, case_names header mark name opened content skip]:
  assumes "loop_body ig p l = Continue p'"
  obtains
    "keyword_regex l"
      "p' = p\<lparr>status := HEADER,
              this := (if \<not> ig then (this p)\<lparr>headers := headers (this p) @ [l]\<rparr> else this p)\<rparr>"
  | "\<not> keyword_regex l" "status p = HEADER \<or> status p = SNAPSHOT_CONTENT" "l = snapshot_mark"
      "p' = p\<lparr>status := SNAPSHOT_MARK, this := push_pending (snapshot p) (this p), snapshot := None\<rparr>"
  | "\<not> keyword_regex l" "status p = SNAPSHOT_MARK" "snapshot_regex l"
      "p' = p\<lparr>status := SNAPSHOT_NAME\<rparr>"
  | "status p = SNAPSHOT_NAME" "l = snapshot_mark" "snapshot p = None"
      "p' = p\<lparr>status := SNAPSHOT_CONTENT, snapshot := Some make_Snapshot\<rparr>"
  | s s' where "body_line l" "status p = SNAPSHOT_CONTENT" "snapshot p = Some s"
      "time_update l (s\<lparr>contents := contents s @ [l]\<rparr>) = Some s'"
      "p' = p\<lparr>snapshot := Some s'\<rparr>"
  | "\<not> keyword_regex l" "status p \<noteq> SNAPSHOT_CONTENT" "p' = p"
proof (cases "keyword_regex l")
  case True
  with assms that(1) show ?thesis by (simp add: loop_body_def)
next
  case nk: False
  show ?thesis
  proof (cases "(status p = HEADER \<or> status p = SNAPSHOT_CONTENT) \<and> l = snapshot_mark")
    case True
    with assms nk that(2) show ?thesis by (simp add: loop_body_def)
  next
    case nm: False
    show ?thesis
    proof (cases "status p = SNAPSHOT_MARK \<and> snapshot_regex l")
      case True
      with assms nk nm that(3) show ?thesis by (simp add: loop_body_def)
    next
      case nn: False
      show ?thesis
      proof (cases "status p = SNAPSHOT_NAME \<and> l = snapshot_mark")
        case True
        with assms nk nm nn that(4) show ?thesis
          by (simp add: loop_body_def split: option.splits)
      next
        case no: False
        show ?thesis
        proof (cases "status p = SNAPSHOT_CONTENT")
          case True
          with nm have "l \<noteq> snapshot_mark" by simp
          with nk have bl: "body_line l" by (simp add: body_line_def)
          from assms nk nm nn no True obtain s where s: "snapshot p = Some s"
            by (cases "snapshot p") (simp_all add: loop_body_def)
          from assms nk nm nn no True s
          obtain s' where "time_update l (s\<lparr>contents := contents s @ [l]\<rparr>) = Some s'"
            "p' = p\<lparr>snapshot := Some s'\<rparr>"
            by (auto simp add: loop_body_def time_update_def Let_def split: option.splits sum.splits)
          with bl True s that(5) show ?thesis by blast
        next
          case False
          with assms nk nm nn no have "p' = p"
            by (auto simp add: loop_body_def split: if_splits)
          with nk False that(6) show ?thesis by blast
        qed
      qed
    qed
  qed
qed


lemma while_getline_Continue_induct:
  assumes "while_getline ig p ls = Continue p'" and "P p"
    and "\<And>q l q'. P q \<Longrightarrow> l \<in> set ls \<Longrightarrow> loop_body ig q l = Continue q' \<Longrightarrow> P q'"
  shows "P p'"
  using assms
proof (induction ls arbitrary: p)
  case Nil
  then show ?case by simp
next
  case (Cons l ls)
  from Cons.prems(1) obtain q where q: "loop_body ig p l = Continue q"
    and rest: "while_getline ig q ls = Continue p'"
    by (auto split: flow.splits)
  have "P q" by (rule Cons.prems(3) [OF Cons.prems(2) _ q]) simp
  then show ?case
    by (rule Cons.IH [OF rest]) (rule Cons.prems(3), simp_all)
qed

lemma while_getline_Return_source:
  assumes "while_getline ig p ls = Return r m" and "P p"
    and "\<And>q l q'. P q \<Longrightarrow> l \<in> set ls \<Longrightarrow> loop_body ig q l = Continue q' \<Longrightarrow> P q'"
  shows "\<exists>q l. P q \<and> l \<in> set ls \<and> loop_body ig q l = Return r m"
  using assms
proof (induction ls arbitrary: p)
  case Nil
  then show ?case by simp
next
  case (Cons l ls)
  show ?case
  proof (cases "loop_body ig p l")
    case (Continue q)
    with Cons.prems(1) have rest: "while_getline ig q ls = Return r m" by simp
    have "P q" by (rule Cons.prems(3) [OF Cons.prems(2) _ Continue]) simp
    then have "\<exists>q l. P q \<and> l \<in> set ls \<and> loop_body ig q l = Return r m"
      by (rule Cons.IH [OF rest]) (rule Cons.prems(3), simp_all)
    then show ?thesis by auto
  next
    case (Return r' m')
    with Cons.prems(1,2) show ?thesis by auto
  next
    case (Throw e)
    with Cons.prems(1) show ?thesis by simp
  qed
qed

lemma shape_ok_step:
  assumes "shape_ok p" and "loop_body ig p l = Continue p'"
  shows "shape_ok p'"
  using assms(2,1)
  by (cases rule: loop_body_Continue_cases) (auto simp: shape_ok_def)

lemma shape_ok_no_Return:
  assumes "shape_ok p"
  shows "loop_body ig p l \<noteq> Return r m"
  using assms
  by (auto simp: shape_ok_def loop_body_def Let_def split: option.splits sum.splits)

lemma shape_ok_init: "shape_ok (parser_init m)"
  by (simp add: shape_ok_def parser_init_def)

lemma while_getline_shape_ok:
  assumes "while_getline ig (parser_init m) ls = Continue p"
  shows "shape_ok p"
  using assms shape_ok_init
  by (rule while_getline_Continue_induct) (rule shape_ok_step)

lemma while_getline_no_Return: "while_getline ig (parser_init m) ls \<noteq> Return r m'"
proof
  assume "while_getline ig (parser_init m) ls = Return r m'"
  then have "\<exists>q l. shape_ok q \<and> l \<in> set ls \<and> loop_body ig q l = Return r m'"
    using shape_ok_init by (rule while_getline_Return_source) (rule shape_ok_step)
  then obtain q l where "shape_ok q" "loop_body ig q l = Return r m'" by blast
  with shape_ok_no_Return show False by blast
qed


lemma push_pending_headers: "headers (push_pending sn m) = headers m"
  by (simp add: push_pending_def split: option.splits)

lemma push_pending_snapshots:
  "snapshots (push_pending sn m) =
     snapshots m @ (case sn of None \<Rightarrow> [] | Some s \<Rightarrow> if contents s \<noteq> [] then [s] else [])"
  by (simp add: push_pending_def split: option.splits)

lemma scan_time_append:
  "scan_time t (xs @ ys) = (case scan_time t xs of None \<Rightarrow> None | Some t' \<Rightarrow> scan_time t' ys)"
  by (induction xs arbitrary: t) (simp_all split: option.splits sum.splits)

lemma time_update_contents:
  assumes "time_update l s = Some s'"
  shows "contents s' = contents s"
  using assms by (auto simp: time_update_def split: option.splits sum.splits)

lemma time_update_scan:
  assumes "time_update l s = Some s'"
  shows "scan_time (time s) [l] = Some (time s')"
  using assms by (auto simp: time_update_def split: option.splits sum.splits)

lemma pending_scan_step:
  assumes "scan_time 0 (contents s) = Some (time s)"
    and "time_update l (s\<lparr>contents := contents s @ [l]\<rparr>) = Some s'"
  shows "contents s' = contents s @ [l]" and "scan_time 0 (contents s') = Some (time s')"
proof -
  from time_update_contents [OF assms(2)] show c: "contents s' = contents s @ [l]" by simp
  from time_update_scan [OF assms(2)] have "scan_time (time s) [l] = Some (time s')" by simp
  with assms(1) c show "scan_time 0 (contents s') = Some (time s')"
    by (simp add: scan_time_append)
qed

lemma grown_init: "grown m (parser_init m)"
  by (simp add: grown_def parser_init_def)

lemma grown_step:
  assumes "grown m0 p" and "loop_body ig p l = Continue p'"
  shows "grown m0 p'"
  using assms(2)
proof (cases rule: loop_body_Continue_cases)
  case header
  with assms(1) show ?thesis by (auto simp: grown_def)
next
  case mark
  from assms(1) obtain new where new: "snapshots (this p) = snapshots m0 @ new"
    "\<forall>s \<in> set new. contents s \<noteq> [] \<and> scan_time 0 (contents s) = Some (time s)"
    by (auto simp: grown_def)
  from assms(1) have pend: "\<forall>s. snapshot p = Some s \<longrightarrow> scan_time 0 (contents s) = Some (time s)"
    by (simp add: grown_def)
  let ?add = "case snapshot p of None \<Rightarrow> [] | Some s \<Rightarrow> if contents s \<noteq> [] then [s] else []"
  have a: "snapshots (this p') = snapshots m0 @ (new @ ?add)"
    using mark(4) new(1) by (simp add: push_pending_snapshots)
  have b: "\<forall>s \<in> set (new @ ?add). contents s \<noteq> [] \<and> scan_time 0 (contents s) = Some (time s)"
    using new(2) pend by (auto split: option.splits if_splits)
  have c: "snapshot p' = None" using mark(4) by simp
  from a b have "\<exists>new. snapshots (this p') = snapshots m0 @ new \<and>
      (\<forall>s \<in> set new. contents s \<noteq> [] \<and> scan_time 0 (contents s) = Some (time s))"
    by (rule_tac x = "new @ ?add" in exI) (rule conjI)
  with c show ?thesis by (simp add: grown_def)
next
  case name
  with assms(1) show ?thesis by (auto simp: grown_def)
next
  case opened
  with assms(1) show ?thesis by (auto simp: grown_def make_Snapshot_def)
next
  case (content s s')
  from assms(1) content(3) have "scan_time 0 (contents s) = Some (time s)"
    by (simp add: grown_def)
  from pending_scan_step(2) [OF this content(4)] content(5) assms(1)
  show ?thesis by (auto simp: grown_def)
next
  case skip
  with assms(1) show ?thesis by simp
qed

lemma while_getline_grown:
  assumes "while_getline ig (parser_init m) ls = Continue p"
  shows "grown m p"
  using assms grown_init
  by (rule while_getline_Continue_induct) (rule grown_step)



lemma parse_lines_cases:
  obtains p where "while_getline ig (parser_init m) ls = Continue p"
      "parse_lines ig ls m = Inr (0, flush p)"
  | e where "while_getline ig (parser_init m) ls = Throw e" "parse_lines ig ls m = Inl e"
proof (cases "while_getline ig (parser_init m) ls")
  case (Continue p)
  then have "parse_lines ig ls m = Inr (0, flush p)"
    by (simp add: parse_lines_def parser_init_def flush_def)
  with Continue that(1) show ?thesis by blast
next
  case (Return r m')
  with while_getline_no_Return show ?thesis by blast
next
  case (Throw e)
  then have "parse_lines ig ls m = Inl e"
    by (simp add: parse_lines_def parser_init_def)
  with Throw that(2) show ?thesis by blast
qed

lemma grown_flush:
  assumes "grown m0 p"
  shows "\<exists>new. snapshots (flush p) = snapshots m0 @ new \<and>
           (\<forall>s \<in> set new. contents s \<noteq> [] \<and> scan_time 0 (contents s) = Some (time s))"
proof -
  from assms obtain new where new: "snapshots (this p) = snapshots m0 @ new"
    "\<forall>s \<in> set new. contents s \<noteq> [] \<and> scan_time 0 (contents s) = Some (time s)"
    by (auto simp: grown_def)
  from assms have pend: "\<forall>s. snapshot p = Some s \<longrightarrow> scan_time 0 (contents s) = Some (time s)"
    by (simp add: grown_def)
  let ?add = "case snapshot p of None \<Rightarrow> [] | Some s \<Rightarrow> if contents s \<noteq> [] then [s] else []"
  have a: "snapshots (flush p) = snapshots m0 @ (new @ ?add)"
    using new(1) by (simp add: flush_def push_pending_snapshots)
  have b: "\<forall>s \<in> set (new @ ?add). contents s \<noteq> [] \<and> scan_time 0 (contents s) = Some (time s)"
    using new(2) pend by (auto split: option.splits if_splits)
  from a b show ?thesis
    by (rule_tac x = "new @ ?add" in exI) (rule conjI)
qed

lemma parse_lines_new_snapshots:
  assumes "parse_lines ig ls m = Inr (r, m')"
  shows "r = 0 \<and> (\<exists>new. snapshots m' = snapshots m @ new \<and>
           (\<forall>s \<in> set new. contents s \<noteq> [] \<and> scan_time 0 (contents s) = Some (time s)))"
proof (cases rule: parse_lines_cases [of ig m ls])
  case (1 p)
  from grown_flush [OF while_getline_grown [OF 1(1)]] 1(2) assms show ?thesis by simp
next
  case (2 e)
  with assms show ?thesis by simp
qed

subsection \<open>The parser: structural errors and the key\<close>

text \<open>
  Claim C4, as amended. No input makes the parser take the branch that reports
  a second open while a snapshot is pending: the loop never returns 2 (neither
  from that branch nor from the one for content without a snapshot), and
  whenever the state machine is in \<^term>\<open>SNAPSHOT_NAME\<close> no snapshot is
  pending, because the only way into \<^term>\<open>SNAPSHOT_MARK\<close> clears it and
  nothing sets it before \<^term>\<open>SNAPSHOT_CONTENT\<close>. The first delimiter of a
  second open sequence is the close delimiter of the pending body.
\<close>

theorem duplicate_open_unreachable:
  "while_getline ig (parser_init m) lines \<noteq> Return r m' \<and>
   parse_lines ig lines m \<noteq> Inr (2, m') \<and>
   (\<forall>p. while_getline ig (parser_init m) lines = Continue p \<longrightarrow>
        status p = SNAPSHOT_NAME \<longrightarrow> snapshot p = None)"
proof (intro conjI allI impI)
  show "while_getline ig (parser_init m) lines \<noteq> Return r m'"
    by (rule while_getline_no_Return)
  show "parse_lines ig lines m \<noteq> Inr (2, m')"
    by (cases rule: parse_lines_cases [of ig m lines]) simp_all
  fix p
  assume "while_getline ig (parser_init m) lines = Continue p" and "status p = SNAPSHOT_NAME"
  with while_getline_shape_ok show "snapshot p = None"
    by (fastforce simp: shape_ok_def)
qed

theorem duplicate_open_unreachable_witness:
  "while_getline False (parser_init MassifFile_empty) (take 7 two_opens) \<noteq> Return 2 MassifFile_empty \<and>
   parse_lines False two_opens MassifFile_empty \<noteq> Inr (2, two_opens_result) \<and>
   while_getline False (parser_init MassifFile_empty) (take 7 two_opens) =
     Continue \<lparr>status = SNAPSHOT_NAME, snapshot = None,
               this = \<lparr>headers = [''desc: x''],
                        snapshots = [\<lparr>time = 0, contents = [''mem_heap_B=1'']\<rparr>]\<rparr>\<rparr>"
proof -
  have ev: "while_getline False (parser_init MassifFile_empty) (take 7 two_opens) =
     Continue \<lparr>status = SNAPSHOT_NAME, snapshot = None,
               this = \<lparr>headers = [''desc: x''],
                        snapshots = [\<lparr>time = 0, contents = [''mem_heap_B=1'']\<rparr>]\<rparr>\<rparr>"
    by code_simp
  from duplicate_open_unreachable [of False MassifFile_empty "take 7 two_opens" 2 MassifFile_empty]
    duplicate_open_unreachable [of False MassifFile_empty two_opens 2 two_opens_result] ev
  show ?thesis by simp
qed

text \<open>
  The claim C4 as stated fails: an open sequence, a body line and another open
  sequence parse with code 0 into two snapshots, and no input at all makes the
  parser return 2.
\<close>

theorem duplicate_open_counterexample:
  "parse_lines False two_opens MassifFile_empty = Inr (0, two_opens_result) \<and>
   \<not> (\<exists>ig lines m m'. parse_lines ig lines m = Inr (2, m'))"
proof
  show "parse_lines False two_opens MassifFile_empty = Inr (0, two_opens_result)"
    by code_simp
  show "\<not> (\<exists>ig lines m m'. parse_lines ig lines m = Inr (2, m'))"
  proof
    assume "\<exists>ig lines m m'. parse_lines ig lines m = Inr (2, m')"
    then obtain ig lines m m' where "parse_lines ig lines m = Inr (2, m')" by blast
    with parse_lines_new_snapshots [OF this] show False by simp
  qed
qed

lemma matching_keys_Cons:
  "matching_keys (l # ls) =
     (case snapshot_time_regex l of
        None \<Rightarrow> matching_keys ls
      | Some ds \<Rightarrow> decimal_value ds # matching_keys ls)"
  by (simp add: matching_keys_def List.map_filter_simps split: option.splits)

lemma scan_time_last_match:
  assumes "scan_time t body = Some t'"
  shows "t' = (case matching_keys body of [] \<Rightarrow> t | k # ks \<Rightarrow> last (k # ks))"
  using assms
proof (induction body arbitrary: t)
  case Nil
  then show ?case by (simp add: matching_keys_def List.map_filter_simps)
next
  case (Cons l ls)
  show ?case
  proof (cases "snapshot_time_regex l")
    case None
    with Cons show ?thesis by (simp add: matching_keys_Cons)
  next
    case (Some ds)
    with Cons.prems obtain t1 where t1: "stoi ds = Inr t1" "scan_time t1 ls = Some t'"
      by (auto split: sum.splits)
    from t1(1) have "t1 = decimal_value ds" by (auto simp: stoi_def split: if_splits)
    with Cons.IH [OF t1(2)] Some show ?thesis
      by (simp add: matching_keys_Cons split: list.splits)
  qed
qed

text \<open>
  Claim C3, as amended. Whenever the parser returns, the key of every snapshot
  it has added is the integer captured from the last line of its body that
  matches \<^verbatim>\<open>time=(\d+)\<close> (0 when no line matches): each matching line
  overwrites \<^verbatim>\<open>time\<close>.
\<close>

theorem key_is_last_match:
  assumes "parse_lines ig lines m = Inr (r, m')"
  shows "\<exists>new. snapshots m' = snapshots m @ new \<and>
           (\<forall>sn \<in> set new. time sn = last_match_key (contents sn))"
proof -
  from parse_lines_new_snapshots [OF assms]
  obtain new where new: "snapshots m' = snapshots m @ new"
    "\<forall>s \<in> set new. contents s \<noteq> [] \<and> scan_time 0 (contents s) = Some (time s)"
    by blast
  have "\<forall>sn \<in> set new. time sn = last_match_key (contents sn)"
  proof
    fix sn assume "sn \<in> set new"
    with new(2) have "scan_time 0 (contents sn) = Some (time sn)" by simp
    from scan_time_last_match [OF this] show "time sn = last_match_key (contents sn)"
      by (simp add: last_match_key_def)
  qed
  with new(1) show ?thesis by blast
qed

theorem key_is_last_match_witness:
  "parse_lines False two_times MassifFile_empty =
     Inr (0, \<lparr>headers = [''desc: x''], snapshots = [\<lparr>time = 2, contents = [''time=1'', ''time=2'']\<rparr>]\<rparr>) \<and>
   last_match_key [''time=1'', ''time=2''] = 2"
proof -
  have ev: "parse_lines False two_times MassifFile_empty =
     Inr (0, \<lparr>headers = [''desc: x''], snapshots = [\<lparr>time = 2, contents = [''time=1'', ''time=2'']\<rparr>]\<rparr>)"
    by code_simp
  from key_is_last_match [OF ev] ev show ?thesis by (simp add: MassifFile_empty_def)
qed

text \<open>
  The claim C3 as stated fails: with the body \<^verbatim>\<open>time=1\<close>, \<^verbatim>\<open>time=2\<close> the key is
  2, while the first matching line captures 1.
\<close>

theorem first_match_counterexample:
  "parse_lines False two_times MassifFile_empty =
     Inr (0, \<lparr>headers = [''desc: x''], snapshots = [\<lparr>time = 2, contents = [''time=1'', ''time=2'']\<rparr>]\<rparr>) \<and>
   first_match_key [''time=1'', ''time=2''] = 1"
  by code_simp

subsection \<open>The combiner attempts every source\<close>







subsection \<open>The serializer\<close>

lemma put_line_good:
  assumes "good (put_line f l)"
  shows "good f \<and> written (put_line f l) = written f @ l @ [newline]"
  using assms by (simp add: put_line_def split: if_splits)

lemma render_Cons: "render (l # ls) = l @ [newline] @ render ls"
  by (simp add: render_def)

lemma render_Nil: "render [] = []"
  by (simp add: render_def)

lemma render_append: "render (xs @ ys) = render xs @ render ys"
  by (simp add: render_def)

lemma writeList_good:
  assumes "good (writeList f ls)"
  shows "good f \<and> written (writeList f ls) = written f @ render ls"
  using assms
proof (induction ls arbitrary: f)
  case Nil
  then show ?case by (simp add: writeList_def render_def)
next
  case (Cons l ls)
  from Cons.prems have g: "good (writeList (put_line f l) ls)" by (simp add: writeList_def)
  from Cons.IH [OF g] have "good (put_line f l)"
    and w: "written (writeList (put_line f l) ls) = written (put_line f l) @ render ls"
    by simp_all
  from put_line_good [OF this(1)] w show ?case
    by (simp add: writeList_def render_Cons)
qed

lemma writeSnapshot_good:
  assumes "good (writeSnapshot f i sn)"
  shows "good f \<and> written (writeSnapshot f i sn) = written f @ render (block i sn)"
proof -
  let ?titles = "[snapshot_mark, ''snapshot='' @ to_string i, snapshot_mark]"
  from assms have g: "good (writeList (writeList f ?titles) (contents sn))"
    by (simp add: writeSnapshot_def)
  from writeList_good [OF g] have g1: "good (writeList f ?titles)"
    and w: "written (writeList (writeList f ?titles) (contents sn)) =
            written (writeList f ?titles) @ render (contents sn)"
    by simp_all
  from writeList_good [OF g1] w show ?thesis
    by (simp add: writeSnapshot_def block_def render_append render_Cons render_Nil)
qed

lemma write_loop_Done:
  assumes "write_loop f i ss = Done f'" and "0 \<le> i"
  shows "written f' = written f @ render (blocks i (drop (nat i) ss))"
  using assms
proof (induction f i ss rule: write_loop.induct)
  case (1 f0 i snaps)
  show ?case
  proof (cases "i < int (length snaps)")
    case True
    let ?f1 = "writeSnapshot f0 i (snaps ! nat i)"
    have "write_loop f0 i snaps =
        (if \<not> good ?f1 then Fail ?f1
         else if i = INT_MAX then Overflow else write_loop ?f1 (i + 1) snaps)"
      using True "1.prems"(2) by (subst write_loop.simps) (simp add: Let_def)
    with "1.prems"(1) have g: "good ?f1" and ni: "i \<noteq> INT_MAX"
      and rest: "write_loop ?f1 (i + 1) snaps = Done f'"
      by (auto split: if_splits)
    have "written f' = written ?f1 @ render (blocks (i + 1) (drop (nat (i + 1)) snaps))"
      using "1.IH" [of ?f1] g ni rest True "1.prems"(2) by simp
    moreover from "1.prems"(2) True have "drop (nat i) snaps = snaps ! nat i # drop (nat (i + 1)) snaps"
      by (simp add: Cons_nth_drop_Suc nat_add_distrib)
    ultimately show ?thesis
      using writeSnapshot_good [OF g] by (simp add: render_append)
  next
    case False
    then have "write_loop f0 i snaps = Done f0"
      by (subst write_loop.simps) simp
    with "1.prems" False show ?thesis by (simp add: render_def)
  qed
qed

lemma set_sort_insert: "set (sort_insert cmp x ys) = insert x (set ys)"
  by (induction ys) auto

lemma mset_sort_insert: "mset (sort_insert cmp x ys) = add_mset x (mset ys)"
  by (induction ys) auto

lemma mset_std_sort: "mset (std_sort cmp xs) = mset xs"
  by (induction xs) (simp_all add: mset_sort_insert)

lemma sorted_sort_insert:
  assumes "sorted_wrt (\<lambda>a b. time a \<le> time b) ys"
  shows "sorted_wrt (\<lambda>a b. time a \<le> time b) (sort_insert by_time x ys)"
  using assms by (induction ys) (auto simp: set_sort_insert by_time_def)

lemma sorted_std_sort: "sorted_wrt (\<lambda>a b. time a \<le> time b) (std_sort by_time xs)"
  by (induction xs) (simp_all add: sorted_sort_insert)

lemma write_file_success:
  assumes "write_file dev fs path m = Some (0, m', fs')"
  shows "m' = m\<lparr>snapshots := std_sort by_time (snapshots m)\<rparr>"
    and "fs' = fs(path \<mapsto> render (output_lines m'))"
    and "headers m \<noteq> [] \<or> snapshots m \<noteq> []"
proof -
  let ?m' = "m\<lparr>snapshots := std_sort by_time (snapshots m)\<rparr>"
  let ?file = "writeList \<lparr>good = True, written = [], room = capacity dev\<rparr> (headers m)"
  from assms show ne: "headers m \<noteq> [] \<or> snapshots m \<noteq> []"
    by (auto simp: write_file_def)
  with assms have g: "good ?file"
    by (auto simp: write_file_def Let_def split: if_splits)
  from assms ne g obtain f' where loop: "write_loop ?file 0 (snapshots ?m') = Done f'"
    and res: "m' = ?m'" "fs' = fs(path \<mapsto> written f')"
    by (auto simp: write_file_def Let_def split: if_splits loop_exit.splits)
  from res(1) show "m' = ?m'" .
  from write_loop_Done [OF loop] writeList_good [OF g]
  have "written f' = render (headers m) @ render (blocks 0 (snapshots ?m'))" by simp
  with res show "fs' = fs(path \<mapsto> render (output_lines m'))"
    by (simp add: output_lines_def render_append)
qed

lemma write_file_example:
  assumes "map_option (\<lambda>(rc, m', fs'). (rc, m')) (write_file dev fs path m) = Some (0, m')"
    and "render (output_lines m') = bytes"
  shows "write_file dev fs path m = Some (0, m', fs(path \<mapsto> bytes))"
proof -
  from assms(1) obtain fs' where w: "write_file dev fs path m = Some (0, m', fs')"
    by (cases "write_file dev fs path m") auto
  from write_file_success(2) [OF w] assms(2) w show ?thesis by simp
qed

lemma write_doc_A:
  "write_file example_dev example_fs ''out'' doc_A =
     Some (0, doc_A, example_fs(''out'' \<mapsto> render source_A))"
proof (rule write_file_example)
  show "map_option (\<lambda>(rc, m', fs'). (rc, m')) (write_file example_dev example_fs ''out'' doc_A) =
          Some (0, doc_A)"
    by code_simp
  show "render (output_lines doc_A) = render source_A" by code_simp
qed

lemma write_doc_AB:
  "write_file example_dev example_fs ''out'' doc_AB =
     Some (0, doc_BA, example_fs(''out'' \<mapsto> render claimed_output))"
proof (rule write_file_example)
  show "map_option (\<lambda>(rc, m', fs'). (rc, m')) (write_file example_dev example_fs ''out'' doc_AB) =
          Some (0, doc_BA)"
    by code_simp
  show "render (output_lines doc_BA) = render claimed_output" by code_simp
qed

text \<open>
  Claim C1, as amended. Source A is the header \<^verbatim>\<open>desc: x\<close> and one block with
  the body \<^verbatim>\<open>mem_heap_B=10\<close>, \<^verbatim>\<open>time=100\<close>; source B is one block with the body
  \<^verbatim>\<open>mem_heap_B=5\<close>, \<^verbatim>\<open>time=50\<close> and no header. Combining A and B and writing
  gives the header \<^verbatim>\<open>desc: x\<close> and the single snapshot 0 with the body of A:
  without a header line the parser never leaves \<^term>\<open>NONE\<close> in B. When B starts
  with a header line (source C), the output is the header \<^verbatim>\<open>desc: x\<close> alone,
  snapshot 0 with the \<^verbatim>\<open>time=50\<close> body and snapshot 1 with the \<^verbatim>\<open>time=100\<close>
  body.
\<close>

theorem end_to_end_example:
  "add_range example_fs [''A'', ''B''] MassifFile_empty = Inr (0, doc_A) \<and>
   write_file example_dev example_fs ''out'' doc_A =
     Some (0, doc_A, example_fs(''out'' \<mapsto> render source_A)) \<and>
   add_range example_fs [''A'', ''C''] MassifFile_empty = Inr (0, doc_AB) \<and>
   write_file example_dev example_fs ''out'' doc_AB =
     Some (0, doc_BA, example_fs(''out'' \<mapsto> render claimed_output))"
proof (intro conjI)
  show "add_range example_fs [''A'', ''B''] MassifFile_empty = Inr (0, doc_A)" by code_simp
  show "add_range example_fs [''A'', ''C''] MassifFile_empty = Inr (0, doc_AB)" by code_simp
qed (rule write_doc_A write_doc_AB)+

theorem end_to_end_example_witness:
  "file_after ''out'' (write_file example_dev example_fs ''out'' doc_A) = Some (0, Some (render source_A)) \<and>
   file_after ''out'' (write_file example_dev example_fs ''out'' doc_AB) = Some (0, Some (render claimed_output))"
  using end_to_end_example by (simp add: file_after_def)

text \<open>
  The claim C1 as stated fails: the output for the sources A and B is the
  content of A, not the two snapshots the claim lists.
\<close>

theorem end_to_end_counterexample:
  "add_range example_fs [''A'', ''B''] MassifFile_empty = Inr (0, doc_A) \<and>
   file_after ''out'' (write_file example_dev example_fs ''out'' doc_A) = Some (0, Some (render source_A)) \<and>
   getlines (render source_A) \<noteq> claimed_output"
  by code_simp

lemma length_std_sort: "length (std_sort cmp xs) = length xs"
  using mset_std_sort [of cmp xs] by (metis size_mset)

text \<open>
  Claim C8. After a successful \<^verbatim>\<open>write\<close> the snapshots of the object are a
  permutation of the ones before, any snapshot at an earlier position has a
  key less than or equal to that of any later one, and the file holds the
  headers followed by the blocks of these snapshots in this order.
\<close>

theorem output_sorted_by_key:
  assumes "write_file dev fs path m = Some (0, m', fs')"
  shows "(\<forall>i j. i < j \<longrightarrow> j < length (snapshots m') \<longrightarrow>
             time (snapshots m' ! i) \<le> time (snapshots m' ! j)) \<and>
         mset (snapshots m') = mset (snapshots m) \<and>
         fs' path = Some (render (headers m @ blocks 0 (snapshots m')))"
proof -
  note ok = write_file_success [OF assms]
  from ok(1) have ss: "snapshots m' = std_sort by_time (snapshots m)"
    and hs: "headers m' = headers m" by simp_all
  have "sorted_wrt (\<lambda>a b. time a \<le> time b) (snapshots m')"
    unfolding ss by (rule sorted_std_sort)
  then have "\<forall>i j. i < j \<longrightarrow> j < length (snapshots m') \<longrightarrow>
             time (snapshots m' ! i) \<le> time (snapshots m' ! j)"
    by (simp add: sorted_wrt_iff_nth_less)
  moreover have "mset (snapshots m') = mset (snapshots m)"
    unfolding ss by (rule mset_std_sort)
  moreover from ok(2) hs have "fs' path = Some (render (headers m @ blocks 0 (snapshots m')))"
    by (simp add: output_lines_def)
  ultimately show ?thesis by blast
qed

theorem output_sorted_by_key_witness:
  "write_file example_dev example_fs ''out'' doc_AB =
     Some (0, doc_BA, example_fs(''out'' \<mapsto> render claimed_output)) \<and>
   time (snapshots doc_BA ! 0) \<le> time (snapshots doc_BA ! 1) \<and>
   mset (snapshots doc_BA) = mset (snapshots doc_AB)"
proof -
  from output_sorted_by_key [OF write_doc_AB]
  have "0 < (1::nat) \<longrightarrow> 1 < length (snapshots doc_BA) \<longrightarrow>
          time (snapshots doc_BA ! 0) \<le> time (snapshots doc_BA ! 1)"
    and "mset (snapshots doc_BA) = mset (snapshots doc_AB)"
    by blast+
  with write_doc_AB show ?thesis by (simp add: doc_BA_def)
qed

lemma blocks_nth:
  "blocks k ss = concat (map (\<lambda>i. block (k + int i) (ss ! i)) [0..<length ss])"
proof (induction ss arbitrary: k)
  case Nil
  show ?case by simp
next
  case (Cons sn ss)
  have "[0..<length (sn # ss)] = 0 # map Suc [0..<length ss]"
    by (simp add: upt_conv_Cons map_Suc_upt del: upt_Suc)
  then show ?case
    by (simp add: Cons.IH [of "k + 1"] comp_def add.assoc del: upt_Suc)
qed

lemma digit_val_digit_char:
  assumes "d < 10"
  shows "digit_val (digit_char d) = int d"
proof -
  have "(of_char (char_of (48 + d)) :: int) = int (of_char (char_of (48 + d)))"
    by (simp add: of_char_def)
  also have "(of_char (char_of (48 + d)) :: nat) = (48 + d) mod 256" by simp
  also have "\<dots> = 48 + d" using assms by simp
  finally show ?thesis by (simp add: digit_val_def digit_char_def)
qed

lemma decimal_value_snoc: "decimal_value (ds @ [c]) = 10 * decimal_value ds + digit_val c"
  by (simp add: decimal_value_def)

lemma decimal_value_decimal: "decimal_value (decimal n) = int n"
proof (induction n rule: decimal.induct)
  case (1 n)
  show ?case
  proof (cases "n < 10")
    case True
    then show ?thesis
      by (subst decimal.simps) (simp add: decimal_value_def digit_val_digit_char)
  next
    case False
    with "1.IH" have "decimal_value (decimal (n div 10)) = int (n div 10)" by simp
    moreover have "10 * int (n div 10) + int (n mod 10) = int n"
      by presburger
    ultimately show ?thesis using False
      by (subst decimal.simps) (simp add: decimal_value_snoc digit_val_digit_char)
  qed
qed

text \<open>
  Claim C9. After a successful \<^verbatim>\<open>write\<close> of \<open>n\<close> snapshots the file holds the
  headers and then, for \<open>i\<close> from 0 to \<open>n - 1\<close> in this order, the delimiter, the
  line \<^verbatim>\<open>snapshot=\<close> followed by the decimal digits of \<open>i\<close>, the delimiter and
  the body of the \<open>i\<close>-th sorted snapshot. The index line depends on the
  position alone, and its digits denote \<open>i\<close>.
\<close>

theorem output_renumbered:
  assumes "write_file dev fs path m = Some (0, m', fs')"
  shows "fs' path =
           Some (render (headers m @
             concat (map (\<lambda>i. [snapshot_mark, ''snapshot='' @ decimal i, snapshot_mark] @
                               contents (snapshots m' ! i))
                       [0..<length (snapshots m)]))) \<and>
         (\<forall>i. decimal_value (decimal i) = int i)"
proof -
  note ok = write_file_success [OF assms]
  from ok(1) have ss: "snapshots m' = std_sort by_time (snapshots m)"
    and hs: "headers m' = headers m" by simp_all
  have len: "length (snapshots m') = length (snapshots m)"
    unfolding ss by (rule length_std_sort)
  have "blocks 0 (snapshots m') =
          concat (map (\<lambda>i. [snapshot_mark, ''snapshot='' @ decimal i, snapshot_mark] @
                               contents (snapshots m' ! i))
                       [0..<length (snapshots m)])"
    by (simp add: blocks_nth len block_def to_string_def)
  with ok(2) hs show ?thesis
    by (simp add: output_lines_def decimal_value_decimal)
qed

theorem output_renumbered_witness:
  "write_file example_dev example_fs ''out'' doc_AB =
     Some (0, doc_BA, example_fs(''out'' \<mapsto> render claimed_output)) \<and>
   render claimed_output =
     render (headers doc_AB @
       concat (map (\<lambda>i. [snapshot_mark, ''snapshot='' @ decimal i, snapshot_mark] @
                         contents (snapshots doc_BA ! i))
                 [0..<length (snapshots doc_AB)])) \<and>
   decimal_value (decimal 1) = 1"
proof -
  from output_renumbered [OF write_doc_AB] write_doc_AB show ?thesis by simp
qed

subsection \<open>Regions without a body line\<close>





subsection \<open>Lines and bytes\<close>

lemma getline_line:
  assumes "line_wf l"
  shows "getline acc (l @ newline # rest) = (acc @ l) # getline [] rest"
  using assms by (induction l arbitrary: acc) (auto simp: line_wf_def)

lemma getlines_render:
  assumes "\<forall>l \<in> set ls. line_wf l"
  shows "getlines (render ls) = ls"
  using assms
proof (induction ls)
  case Nil
  show ?case by (simp add: getlines_def render_Nil)
next
  case (Cons l ls)
  then have "getline [] (l @ newline # render ls) = l # getline [] (render ls)"
    by (simp add: getline_line)
  with Cons show ?case by (simp add: getlines_def render_Cons)
qed

lemma getline_wf:
  assumes "line_wf acc"
  shows "\<forall>l \<in> set (getline acc bytes). line_wf l"
  using assms
proof (induction bytes arbitrary: acc)
  case Nil
  then show ?case by simp
next
  case (Cons c cs)
  show ?case
  proof (cases "c = newline")
    case True
    have "line_wf []" by (simp add: line_wf_def)
    from Cons.IH [OF this] Cons.prems True show ?thesis by simp
  next
    case False
    with Cons.prems have "line_wf (acc @ [c])" by (auto simp: line_wf_def)
    from Cons.IH [OF this] False show ?thesis by simp
  qed
qed

lemma getlines_wf: "\<forall>l \<in> set (getlines bytes). line_wf l"
  unfolding getlines_def by (rule getline_wf) (simp add: line_wf_def)

lemma is_digit_digit_char:
  assumes "d < 10"
  shows "is_digit (digit_char d)"
proof -
  have "(of_char (char_of (48 + d)) :: nat) = (48 + d) mod 256" by simp
  also have "\<dots> = 48 + d" using assms by simp
  finally show ?thesis using assms by (simp add: is_digit_def digit_char_def)
qed

lemma decimal_digits: "decimal n \<noteq> [] \<and> (\<forall>c \<in> set (decimal n). is_digit c)"
proof (induction n rule: decimal.induct)
  case (1 n)
  show ?case
  proof (cases "n < 10")
    case True
    then show ?thesis by (subst (1 2) decimal.simps) (simp add: is_digit_digit_char)
  next
    case False
    with "1.IH" have "\<forall>c \<in> set (decimal (n div 10)). is_digit c" by simp
    with False show ?thesis by (subst (1 2) decimal.simps) (simp add: is_digit_digit_char)
  qed
qed

lemma is_digit_not_newline: "is_digit c \<Longrightarrow> c \<noteq> newline"
  by (auto simp: is_digit_def newline_def)

lemma to_string_wf: "line_wf (to_string i)"
  using decimal_digits is_digit_not_newline
  by (auto simp: line_wf_def to_string_def newline_def)

lemma index_line_wf: "line_wf (''snapshot='' @ to_string i)"
  using to_string_wf [of i] by (simp add: line_wf_def newline_def)

lemma mark_wf: "line_wf snapshot_mark"
  by (simp add: line_wf_def snapshot_mark_def newline_def)

lemma index_line_not_keyword: "\<not> keyword_regex (''snapshot='' @ str)"
  by (simp add: keyword_regex_def starts_with_def)

lemma index_line_matches:
  assumes "0 \<le> i"
  shows "snapshot_regex (''snapshot='' @ to_string i)"
proof -
  from assms have ts: "to_string i = decimal (nat i)" by (simp add: to_string_def)
  obtain c cs where d: "decimal (nat i) = c # cs" and "is_digit c"
    using decimal_digits [of "nat i"] by (cases "decimal (nat i)") auto
  then have "takeWhile is_digit (to_string i) \<noteq> []" using ts by simp
  then show ?thesis
    by (simp add: snapshot_regex_def starts_with_def)
qed

subsection \<open>What the combiner builds is well formed\<close>

lemma parser_wf_init:
  assumes "doc_wf m" and "ig = (length (headers m) > 0)"
  shows "parser_wf ig (parser_init m)"
  using assms by (simp add: parser_wf_def parser_init_def)

lemma doc_wf_push_pending:
  assumes "doc_wf m" and "\<forall>sn. pend = Some sn \<longrightarrow> pending_wf sn" and "headers m \<noteq> []"
  shows "doc_wf (push_pending pend m)"
  using assms
  by (auto simp: doc_wf_def snap_wf_def push_pending_def split: option.splits)

lemma parser_wf_step:
  assumes "parser_wf ig p" and "line_wf l" and "loop_body ig p l = Continue p'"
  shows "parser_wf ig p'"
  using assms(3)
proof (cases rule: loop_body_Continue_cases)
  case header
  with assms(1,2) show ?thesis by (auto simp: parser_wf_def doc_wf_def)
next
  case mark
  from mark(2) assms(1) have h: "headers (this p) \<noteq> []" by (auto simp: parser_wf_def)
  from assms(1) have "doc_wf (this p)" "\<forall>sn. snapshot p = Some sn \<longrightarrow> pending_wf sn"
    by (simp_all add: parser_wf_def)
  from doc_wf_push_pending [OF this h] h mark(4) show ?thesis
    by (simp add: parser_wf_def push_pending_headers)
next
  case name
  with assms(1) show ?thesis by (auto simp: parser_wf_def)
next
  case opened
  with assms(1) show ?thesis
    by (auto simp: parser_wf_def pending_wf_def make_Snapshot_def)
next
  case (content s s')
  from assms(1) content(3) have pw: "pending_wf s" by (simp add: parser_wf_def)
  then have "scan_time 0 (contents s) = Some (time s)" by (simp add: pending_wf_def)
  from pending_scan_step [OF this content(4)] pw content(1) assms(2)
  have "pending_wf s'" by (auto simp: pending_wf_def)
  with assms(1) content(5) show ?thesis by (auto simp: parser_wf_def)
next
  case skip
  with assms(1) show ?thesis by simp
qed

lemma parser_wf_flush:
  assumes "parser_wf ig p" and "ig = (length (headers m) > 0)"
    and "status p = NONE \<longrightarrow> this p = m \<and> snapshot p = None" and "doc_wf m"
  shows "doc_wf (flush p)"
proof (cases "headers (this p) = []")
  case True
  with assms(1) have "status p = NONE" by (auto simp: parser_wf_def)
  with assms(3,4) show ?thesis by (simp add: flush_def push_pending_def)
next
  case False
  from assms(1) have "doc_wf (this p)" "\<forall>sn. snapshot p = Some sn \<longrightarrow> pending_wf sn"
    by (simp_all add: parser_wf_def)
  from doc_wf_push_pending [OF this False] show ?thesis by (simp add: flush_def)
qed

lemma parse_lines_doc_wf:
  assumes "doc_wf m" and "\<forall>l \<in> set ls. line_wf l"
    and "parse_lines (length (headers m) > 0) ls m = Inr (r, m')"
  shows "doc_wf m'"
proof (cases rule: parse_lines_cases [of "length (headers m) > 0" m ls])
  case (1 p)
  let ?P = "\<lambda>q. parser_wf (length (headers m) > 0) q \<and>
                 (status q = NONE \<longrightarrow> this q = m \<and> snapshot q = None)"
  have "?P p"
    using 1(1)
  proof (rule while_getline_Continue_induct)
    show "?P (parser_init m)"
      using parser_wf_init [OF assms(1) refl] by (simp add: parser_init_def)
  next
    fix q l q'
    assume q: "?P q" and l: "l \<in> set ls"
      and step: "loop_body (length (headers m) > 0) q l = Continue q'"
    from l assms(2) have "line_wf l" by simp
    with q step have "parser_wf (length (headers m) > 0) q'" by (blast intro: parser_wf_step)
    moreover from step q have "status q' = NONE \<longrightarrow> this q' = m \<and> snapshot q' = None"
      by (cases rule: loop_body_Continue_cases) auto
    ultimately show "?P q'" by simp
  qed
  then have "doc_wf (flush p)" using assms(1) by (blast intro: parser_wf_flush)
  with 1(2) assms(3) show ?thesis by simp
next
  case (2 e)
  with assms(3) show ?thesis by simp
qed

lemma add_doc_wf:
  assumes "doc_wf m" and "add fs path m = Inr (r, m')"
  shows "doc_wf m'"
proof (cases "fs path")
  case None
  with assms show ?thesis by (simp add: add_def appendFile_def)
next
  case (Some bytes)
  with assms(2) have "parse_lines (length (headers m) > 0) (getlines bytes) m = Inr (r, m')"
    by (simp add: add_def appendFile_def)
  from parse_lines_doc_wf [OF assms(1) getlines_wf this] show ?thesis .
qed

lemma add_loop_doc_wf:
  assumes "doc_wf m" and "add_loop fs ret paths m = Inr (r, m')"
  shows "doc_wf m'"
  using assms
proof (induction paths arbitrary: ret m)
  case Nil
  then show ?case by simp
next
  case (Cons path rest)
  from Cons.prems(2) obtain r1 m1 where a: "add fs path m = Inr (r1, m1)"
    and rest: "add_loop fs (if r1 \<noteq> 0 then r1 else ret) rest m1 = Inr (r, m')"
    by (auto split: sum.splits prod.splits)
  from add_doc_wf [OF Cons.prems(1) a] have "doc_wf m1" .
  from Cons.IH [OF this rest] show ?case .
qed

lemma doc_wf_empty: "doc_wf MassifFile_empty"
  by (simp add: doc_wf_def MassifFile_empty_def)

lemma add_range_doc_wf:
  assumes "add_range fs paths MassifFile_empty = Inr (r, m)"
  shows "doc_wf m"
  using add_loop_doc_wf [OF doc_wf_empty] assms by (simp add: add_range_def)

lemma doc_wf_sorted:
  assumes "doc_wf m"
  shows "doc_wf (m\<lparr>snapshots := std_sort by_time (snapshots m)\<rparr>)"
proof -
  have "set (std_sort by_time (snapshots m)) = set (snapshots m)"
    using mset_std_sort [of by_time "snapshots m"] by (metis set_mset_mset)
  moreover have "std_sort by_time (snapshots m) \<noteq> [] \<longrightarrow> snapshots m \<noteq> []"
    by auto
  ultimately show ?thesis using assms by (simp add: doc_wf_def)
qed

subsection \<open>Reading back what was written\<close>

lemma while_getline_append:
  "while_getline ig p (xs @ ys) =
     (case while_getline ig p xs of
        Continue q \<Rightarrow> while_getline ig q ys
      | Return r m \<Rightarrow> Return r m
      | Throw e \<Rightarrow> Throw e)"
  by (induction xs arbitrary: p) (simp_all split: flow.splits)

lemma loop_body_keyword:
  assumes "keyword_regex l"
  shows "loop_body False p l =
           Continue (p\<lparr>status := HEADER, this := (this p)\<lparr>headers := headers (this p) @ [l]\<rparr>\<rparr>)"
  using assms by (simp add: loop_body_def)

lemma while_getline_headers:
  assumes "\<forall>h \<in> set hs. keyword_regex h" and "hs \<noteq> []"
  shows "while_getline False p hs =
           Continue (p\<lparr>status := HEADER, this := (this p)\<lparr>headers := headers (this p) @ hs\<rparr>\<rparr>)"
  using assms
proof (induction hs arbitrary: p)
  case Nil
  then show ?case by simp
next
  case (Cons h hs)
  let ?q = "p\<lparr>status := HEADER, this := (this p)\<lparr>headers := headers (this p) @ [h]\<rparr>\<rparr>"
  from Cons.prems have step: "loop_body False p h = Continue ?q" by (simp add: loop_body_keyword)
  show ?case
  proof (cases "hs = []")
    case True
    with step show ?thesis by simp
  next
    case False
    with Cons.IH [of ?q] Cons.prems step show ?thesis by simp
  qed
qed

lemma loop_body_mark:
  assumes "status p = HEADER \<or> status p = SNAPSHOT_CONTENT"
  shows "loop_body ig p snapshot_mark =
           Continue \<lparr>status = SNAPSHOT_MARK, snapshot = None, this = flush p\<rparr>"
  using assms by (auto simp: loop_body_def mark_not_keyword flush_def)

lemma loop_body_index:
  assumes "0 \<le> i"
  shows "loop_body ig \<lparr>status = SNAPSHOT_MARK, snapshot = None, this = m\<rparr> (''snapshot='' @ to_string i) =
           Continue \<lparr>status = SNAPSHOT_NAME, snapshot = None, this = m\<rparr>"
  using index_line_matches [OF assms] index_line_not_keyword [of "to_string i"]
  by (simp add: loop_body_def)

lemma loop_body_open:
  "loop_body ig \<lparr>status = SNAPSHOT_NAME, snapshot = None, this = m\<rparr> snapshot_mark =
     Continue \<lparr>status = SNAPSHOT_CONTENT, snapshot = Some make_Snapshot, this = m\<rparr>"
  by (simp add: loop_body_def mark_not_keyword)

lemma loop_body_content:
  assumes "body_line l" and "time_update l (q\<lparr>contents := contents q @ [l]\<rparr>) = Some q'"
  shows "loop_body ig \<lparr>status = SNAPSHOT_CONTENT, snapshot = Some q, this = m\<rparr> l =
           Continue \<lparr>status = SNAPSHOT_CONTENT, snapshot = Some q', this = m\<rparr>"
  using assms
  by (auto simp: loop_body_def body_line_def time_update_def Let_def
      split: option.splits sum.splits)

lemma while_getline_body:
  assumes "\<forall>l \<in> set ls. body_line l" and "scan_time (time q) ls = Some t"
  shows "while_getline ig \<lparr>status = SNAPSHOT_CONTENT, snapshot = Some q, this = m\<rparr> ls =
           Continue \<lparr>status = SNAPSHOT_CONTENT,
                     snapshot = Some \<lparr>time = t, contents = contents q @ ls\<rparr>, this = m\<rparr>"
  using assms
proof (induction ls arbitrary: q)
  case Nil
  then show ?case by simp
next
  case (Cons l ls)
  from Cons.prems(2) obtain q' where q': "time_update l (q\<lparr>contents := contents q @ [l]\<rparr>) = Some q'"
    and rest: "scan_time (time q') ls = Some t"
    by (auto simp: time_update_def split: option.splits sum.splits)
  from time_update_contents [OF q'] have c: "contents q' = contents q @ [l]" by simp
  from Cons.prems(1) have "body_line l" by simp
  from loop_body_content [OF this q', of ig m]
  have "loop_body ig \<lparr>status = SNAPSHOT_CONTENT, snapshot = Some q, this = m\<rparr> l =
          Continue \<lparr>status = SNAPSHOT_CONTENT, snapshot = Some q', this = m\<rparr>"
    by simp
  with Cons.IH [OF _ rest] Cons.prems(1) c show ?case by simp
qed

lemma while_getline_block:
  assumes "status p = HEADER \<or> status p = SNAPSHOT_CONTENT" and "0 \<le> i" and "pending_wf sn"
  shows "while_getline ig p (block i sn) =
           Continue \<lparr>status = SNAPSHOT_CONTENT, snapshot = Some sn, this = flush p\<rparr>"
proof -
  define idx where "idx = ''snapshot='' @ to_string i"
  from assms(3) have body: "\<forall>l \<in> set (contents sn). body_line l"
    and key: "scan_time (time make_Snapshot) (contents sn) = Some (time sn)"
    by (simp_all add: pending_wf_def make_Snapshot_def)
  have s1: "loop_body ig p snapshot_mark =
      Continue \<lparr>status = SNAPSHOT_MARK, snapshot = None, this = flush p\<rparr>"
    by (rule loop_body_mark [OF assms(1)])
  have s2: "loop_body ig \<lparr>status = SNAPSHOT_MARK, snapshot = None, this = flush p\<rparr> idx =
      Continue \<lparr>status = SNAPSHOT_NAME, snapshot = None, this = flush p\<rparr>"
    unfolding idx_def by (rule loop_body_index [OF assms(2)])
  have s3: "loop_body ig \<lparr>status = SNAPSHOT_NAME, snapshot = None, this = flush p\<rparr> snapshot_mark =
      Continue \<lparr>status = SNAPSHOT_CONTENT, snapshot = Some make_Snapshot, this = flush p\<rparr>"
    by (rule loop_body_open)
  have s4: "while_getline ig \<lparr>status = SNAPSHOT_CONTENT, snapshot = Some make_Snapshot, this = flush p\<rparr>
          (contents sn) =
        Continue \<lparr>status = SNAPSHOT_CONTENT, snapshot = Some sn, this = flush p\<rparr>"
    using while_getline_body [OF body key, of ig "flush p"] by (simp add: make_Snapshot_def)
  have "block i sn = snapshot_mark # idx # snapshot_mark # contents sn"
    by (simp add: block_def idx_def)
  with s1 s2 s3 s4 show ?thesis by simp
qed

lemma flush_pending:
  assumes "contents sn \<noteq> []"
  shows "flush \<lparr>status = st, snapshot = Some sn, this = m\<rparr> = m\<lparr>snapshots := snapshots m @ [sn]\<rparr>"
  using assms by (simp add: flush_def push_pending_def)

lemma while_getline_blocks:
  assumes "status p = HEADER \<or> status p = SNAPSHOT_CONTENT" and "0 \<le> i"
    and "\<forall>sn \<in> set sns. snap_wf sn"
  shows "\<exists>p'. while_getline ig p (blocks i sns) = Continue p' \<and>
              (status p' = HEADER \<or> status p' = SNAPSHOT_CONTENT) \<and>
              flush p' = (flush p)\<lparr>snapshots := snapshots (flush p) @ sns\<rparr>"
  using assms
proof (induction sns arbitrary: p i)
  case Nil
  then show ?case by simp
next
  case (Cons sn sns)
  let ?q = "\<lparr>status = SNAPSHOT_CONTENT, snapshot = Some sn, this = flush p\<rparr>"
  from Cons.prems(3) have wf: "pending_wf sn" and ne: "contents sn \<noteq> []"
    by (simp_all add: snap_wf_def)
  have blk: "while_getline ig p (block i sn) = Continue ?q"
    by (rule while_getline_block [OF Cons.prems(1,2) wf])
  have fq: "flush ?q = (flush p)\<lparr>snapshots := snapshots (flush p) @ [sn]\<rparr>"
    by (rule flush_pending [OF ne])
  from Cons.prems have "\<exists>p'. while_getline ig ?q (blocks (i + 1) sns) = Continue p' \<and>
              (status p' = HEADER \<or> status p' = SNAPSHOT_CONTENT) \<and>
              flush p' = (flush ?q)\<lparr>snapshots := snapshots (flush ?q) @ sns\<rparr>"
    by (intro Cons.IH) simp_all
  then obtain p' where p': "while_getline ig ?q (blocks (i + 1) sns) = Continue p'"
    "status p' = HEADER \<or> status p' = SNAPSHOT_CONTENT"
    "flush p' = (flush ?q)\<lparr>snapshots := snapshots (flush ?q) @ sns\<rparr>"
    by blast
  from blk p'(1) have "while_getline ig p (blocks i (sn # sns)) = Continue p'"
    by (simp add: while_getline_append)
  moreover from p'(3) fq
  have "flush p' = (flush p)\<lparr>snapshots := snapshots (flush p) @ sn # sns\<rparr>" by simp
  ultimately show ?case using p'(2) by blast
qed

lemma reparse_output:
  assumes "doc_wf m"
  shows "parse_lines False (output_lines m) MassifFile_empty = Inr (0, m)"
proof (cases "headers m = []")
  case True
  with assms have "snapshots m = []" by (auto simp: doc_wf_def)
  with True have "output_lines m = []" and "m = MassifFile_empty"
    by (simp_all add: output_lines_def MassifFile_empty_def)
  then show ?thesis by (simp add: parse_lines_def push_pending_def)
next
  case False
  let ?p0 = "parser_init MassifFile_empty"
  let ?p1 = "?p0\<lparr>status := HEADER, this := (this ?p0)\<lparr>headers := headers (this ?p0) @ headers m\<rparr>\<rparr>"
  from assms have "\<forall>h \<in> set (headers m). keyword_regex h" by (simp add: doc_wf_def)
  from while_getline_headers [OF this False]
  have hd: "while_getline False ?p0 (headers m) = Continue ?p1" .
  have st: "status ?p1 = HEADER \<or> status ?p1 = SNAPSHOT_CONTENT" by simp
  from assms have "\<forall>sn \<in> set (snapshots m). snap_wf sn" by (simp add: doc_wf_def)
  from while_getline_blocks [OF st _ this, of 0 False]
  obtain p' where p': "while_getline False ?p1 (blocks 0 (snapshots m)) = Continue p'"
    "flush p' = (flush ?p1)\<lparr>snapshots := snapshots (flush ?p1) @ snapshots m\<rparr>"
    by auto
  have "flush ?p1 = \<lparr>headers = headers m, snapshots = []\<rparr>"
    by (simp add: flush_def push_pending_def parser_init_def MassifFile_empty_def)
  with p'(2) have "flush p' = m" by simp
  moreover from hd p'(1)
  have "while_getline False ?p0 (output_lines m) = Continue p'"
    by (simp add: output_lines_def while_getline_append)
  ultimately show ?thesis
    by (simp add: parse_lines_def parser_init_def flush_def)
qed

lemma block_wf:
  assumes "\<forall>l \<in> set (contents sn). line_wf l"
  shows "\<forall>l \<in> set (block i sn). line_wf l"
  using assms mark_wf index_line_wf [of i] by (simp add: block_def)

lemma blocks_wf:
  assumes "\<forall>sn \<in> set sns. \<forall>l \<in> set (contents sn). line_wf l"
  shows "\<forall>l \<in> set (blocks i sns). line_wf l"
  using assms
proof (induction sns arbitrary: i)
  case Nil
  show ?case by simp
next
  case (Cons sn sns)
  from Cons.prems have "\<forall>l \<in> set (block i sn). line_wf l" by (intro block_wf) simp
  moreover from Cons.prems have "\<forall>l \<in> set (blocks (i + 1) sns). line_wf l"
    by (intro Cons.IH) simp
  ultimately show ?case by auto
qed

lemma output_lines_wf:
  assumes "doc_wf m"
  shows "\<forall>l \<in> set (output_lines m). line_wf l"
proof -
  from assms have "\<forall>sn \<in> set (snapshots m). \<forall>l \<in> set (contents sn). line_wf l"
    by (simp add: doc_wf_def snap_wf_def pending_wf_def)
  from blocks_wf [OF this, of 0] assms show ?thesis
    by (auto simp: output_lines_def doc_wf_def)
qed

text \<open>
  Claim C5. Let \<open>D\<close> be the object the combiner has built from an empty one
  over any list of sources, and let \<^verbatim>\<open>write\<close> succeed on it (so \<open>D\<close> is not
  empty), leaving the object \<open>D'\<close> with its snapshots sorted. Reading the
  file just written as a single source into an empty object returns 0 and
  yields \<open>D'\<close> itself: the same headers, and the same multiset of pairs of key
  and body as \<open>D\<close>.
\<close>

theorem reparse_combined_output:
  assumes "add_range fs paths MassifFile_empty = Inr (rc, D)"
    and "write_file dev fs1 out D = Some (0, D', fs2)"
  shows "add fs2 out MassifFile_empty = Inr (0, D') \<and>
         image_mset key_body (mset (snapshots D')) = image_mset key_body (mset (snapshots D)) \<and>
         headers D' = headers D"
proof -
  note ok = write_file_success [OF assms(2)]
  from add_range_doc_wf [OF assms(1)] have "doc_wf D" .
  from doc_wf_sorted [OF this] ok(1) have wf: "doc_wf D'" by simp
  from ok(2) have "fs2 out = Some (render (output_lines D'))" by simp
  moreover have "getlines (render (output_lines D')) = output_lines D'"
    by (rule getlines_render [OF output_lines_wf [OF wf]])
  ultimately have "add fs2 out MassifFile_empty = Inr (0, D')"
    using reparse_output [OF wf]
    by (simp add: add_def appendFile_def MassifFile_empty_def)
  moreover from ok(1) have "mset (snapshots D') = mset (snapshots D)"
    by (simp add: mset_std_sort)
  moreover from ok(1) have "headers D' = headers D" by simp
  ultimately show ?thesis by simp
qed

theorem reparse_combined_output_witness:
  "add_range example_fs [''A'', ''C''] MassifFile_empty = Inr (0, doc_AB) \<and>
   write_file example_dev example_fs ''out'' doc_AB =
     Some (0, doc_BA, example_fs(''out'' \<mapsto> render claimed_output)) \<and>
   add (example_fs(''out'' \<mapsto> render claimed_output)) ''out'' MassifFile_empty = Inr (0, doc_BA) \<and>
   image_mset key_body (mset (snapshots doc_BA)) = image_mset key_body (mset (snapshots doc_AB))"
proof -
  have c: "add_range example_fs [''A'', ''C''] MassifFile_empty = Inr (0, doc_AB)" by code_simp
  from reparse_combined_output [OF c write_doc_AB] c write_doc_AB show ?thesis by simp
qed

end
